theory Spec2Isabelle
  imports Main
begin

section \<open>Data model of the visualizer\<close>

text \<open>
  A triangle mesh is a list of triangles (identified by numbers); the in-place sum
  \<^verbatim>\<open>mesh += other\<close> of the rendering library appends the triangles of \<open>other\<close>.
\<close>

type_synonym mesh = "nat list"
type_synonym pose = "int list"
type_synonym scene = "(string \<times> mesh) list"
type_synonym image = scene

text \<open>
  Modelled from the spec: the class \<^verbatim>\<open>Particle\<close> is not among the sources; the visualizer
  reads three attributes of it. By sections 3 and 4.1 of the specification a particle
  has a name, a trajectory with one pose per step (\<^verbatim>\<open>position\<close>, of which the visualizer
  reads only the number of steps \<^verbatim>\<open>position.shape[0]\<close>), and a cache from step index to
  the geometry placed for that step (\<^verbatim>\<open>mesh_dict\<close>), where accessing a missing step is an
  out-of-range error surfaced to the caller. \<open>mesh_dict p c\<close> is the value of the subscript
  \<^verbatim>\<open>item.mesh_dict[c]\<close>, and \<open>None\<close> where the subscript raises that error. The error is
  \<open>LookupError\<close> below: Python's common class of the out-of-range errors of its
  containers (\<^verbatim>\<open>IndexError\<close> of a sequence, \<^verbatim>\<open>KeyError\<close> of a dictionary), whichever
  container the class uses.
\<close>

record particle =
  name :: string
  position :: "pose list"
  mesh_dict :: "int \<rightharpoonup> mesh"

datatype error =
  IndexError | LookupError | AttributeError | UnboundLocalError
  | FileExistsError | ZeroDivisionError | ValueError

datatype artifact = Ply mesh | Video int "image list"

text \<open>
  The record holds the attributes of the \<^verbatim>\<open>Visualizer\<close> object and the part of the world
  its methods act on: \<open>geometry\<close> and \<open>redraws\<close> are the state of the window \<^verbatim>\<open>self.vis\<close>
  (named geometries in the order they were added, and the number of redraw requests),
  \<open>temp_video\<close> is the directory \<^verbatim>\<open>temp_video\<close> (\<open>None\<close> when it does not exist, otherwise
  its files in directory order) and \<open>files\<close> are the other files written into the working
  directory. An image file holds the scene that was on display when it was captured.
\<close>

record visualizer =
  particles :: "particle list"
  frame_rate :: int
  number_of_steps :: int
  store_run_files :: bool
  video_format :: string
  counter :: int
  interrupt :: int
  update_thread_finished :: bool
  save_thread_finished :: bool
  geometry :: scene
  redraws :: nat
  temp_video :: "(string \<times> image) list option"
  files :: "(string \<times> artifact) list"

text \<open>
  A method either returns normally in a new state (\<open>Inr\<close>) or raises an exception
  (\<open>Inl\<close>); the state in which the exception left the object is kept with the exception.
\<close>

type_synonym result = "(error \<times> visualizer) + visualizer"

definition state_of :: "result \<Rightarrow> visualizer" where
  "state_of r = (case r of Inl (e, v) \<Rightarrow> v | Inr v \<Rightarrow> v)"

section \<open>Construction\<close>

text \<open>
  \<^verbatim>\<open>__init__\<close>. The last two arguments are not arguments of the constructor: they are the
  working directory as the object finds it. \<^verbatim>\<open>interrupt\<close> and the two handshake flags are
  attributes that the constructor does not create; \<^verbatim>\<open>_initialize_app\<close> and
  \<^verbatim>\<open>_record_trajectory\<close> write them before any method reads them.
\<close>

definition init ::
  "particle list \<Rightarrow> int \<Rightarrow> int option \<Rightarrow> bool \<Rightarrow> string
     \<Rightarrow> (string \<times> image) list option \<Rightarrow> (string \<times> artifact) list \<Rightarrow> error + visualizer" where
  "init ps rate steps store fmt cwd_temp_video cwd_files =
     (case (case steps of
              None \<Rightarrow> (case ps of [] \<Rightarrow> Inl IndexError | p # _ \<Rightarrow> Inr (int (length (position p))))
            | Some n \<Rightarrow> Inr n) of
        Inl e \<Rightarrow> Inl e
      | Inr n \<Rightarrow>
          Inr \<lparr> particles = ps, frame_rate = rate, number_of_steps = n,
                store_run_files = store, video_format = fmt, counter = 0, interrupt = 0,
                update_thread_finished = False, save_thread_finished = False,
                geometry = [], redraws = 0,
                temp_video = cwd_temp_video, files = cwd_files \<rparr>)"

section \<open>Drawing and stepping\<close>

definition remove_geometry :: "string \<Rightarrow> visualizer \<Rightarrow> visualizer" where
  "remove_geometry n v = v\<lparr>geometry := filter (\<lambda>g. fst g \<noteq> n) (geometry v)\<rparr>"

definition add_geometry :: "string \<Rightarrow> mesh \<Rightarrow> visualizer \<Rightarrow> visualizer" where
  "add_geometry n m v = v\<lparr>geometry := geometry v @ [(n, m)]\<rparr>"

definition post_redraw :: "visualizer \<Rightarrow> visualizer" where
  "post_redraw v = v\<lparr>redraws := Suc (redraws v)\<rparr>"

text \<open>
  \<^verbatim>\<open>_draw_particles\<close>: the loop over \<^verbatim>\<open>self.particles\<close>. Every caller passes the window
  \<^verbatim>\<open>self.vis\<close> itself or nothing, so there is one scene. A step missing from a particle's
  \<^verbatim>\<open>mesh_dict\<close> raises the out-of-range error after the particles before it have been
  redrawn.
\<close>

fun draw_particles :: "bool \<Rightarrow> particle list \<Rightarrow> visualizer \<Rightarrow> result" where
  "draw_particles initial [] v = Inr v"
| "draw_particles initial (item # rest) v =
     (let v1 = (if initial then v else remove_geometry (name item) v) in
      case mesh_dict item (counter v1) of
        None \<Rightarrow> Inl (LookupError, v1)
      | Some m \<Rightarrow> draw_particles initial rest (add_geometry (name item) m v1))"

text \<open>
  \<^verbatim>\<open>_update_particles(visualizer, step)\<close>. With \<^verbatim>\<open>step = None\<close> the counter advances with
  wrap-around; the local assignment \<^verbatim>\<open>step = self.counter\<close> has no effect afterwards. With
  a step given, the branch is skipped and nothing reads \<^verbatim>\<open>step\<close>.
\<close>

definition update_particles :: "int option \<Rightarrow> visualizer \<Rightarrow> result" where
  "update_particles step v =
     (let v1 = (case step of
                  None \<Rightarrow>
                    (if counter v = number_of_steps v - 1 then v\<lparr>counter := 0\<rparr>
                     else v\<lparr>counter := counter v + 1\<rparr>)
                | Some k \<Rightarrow> v) in
      case draw_particles False (particles v1) v1 of
        Inl e \<Rightarrow> Inl e
      | Inr v2 \<Rightarrow> Inr (post_redraw v2))"

text \<open>The state after \<open>n\<close> triggers of the Step action, whether or not a trigger raised.\<close>

fun step_action :: "nat \<Rightarrow> visualizer \<Rightarrow> visualizer" where
  "step_action 0 v = v"
| "step_action (Suc n) v = step_action n (state_of (update_particles None v))"

section \<open>Frame files and the assembler\<close>

text \<open>
  Decimal rendering of the counter in the f-string \<^verbatim>\<open>f"temp_video/frame_{self.counter}.png"\<close>
  and the sort key \<^verbatim>\<open>int(re.search(r"\d+", s).group())\<close>: the leftmost maximal run of
  digits of the path, read as a number. \<open>search_digits\<close> is \<open>None\<close> when the path has no
  digit, where \<^verbatim>\<open>.group()\<close> on \<^verbatim>\<open>None\<close> raises \<^verbatim>\<open>AttributeError\<close>. Paths are strings of
  bytes here and a digit is one of the ten ASCII digits; the decimal digits of other
  scripts, which Python's \<^verbatim>\<open>\d\<close> and \<^verbatim>\<open>int\<close> accept as well, do not occur in the names
  this program writes.
\<close>

definition is_digit :: "char \<Rightarrow> bool" where
  "is_digit c = (48 \<le> (of_char c :: nat) \<and> (of_char c :: nat) \<le> 57)"

definition digit_val :: "char \<Rightarrow> nat" where
  "digit_val c = of_char c - 48"

definition digit_char :: "nat \<Rightarrow> char" where
  "digit_char d = char_of (48 + d)"

function str_nat :: "nat \<Rightarrow> string" where
  "str_nat n = (if n < 10 then [digit_char n] else str_nat (n div 10) @ [digit_char (n mod 10)])"
  by pat_completeness auto
termination
  by (relation "measure id") auto

declare str_nat.simps [simp del]

definition str :: "int \<Rightarrow> string" where
  "str i = (if i < 0 then CHR ''-'' # str_nat (nat (- i)) else str_nat (nat i))"

definition search_digits :: "string \<Rightarrow> string option" where
  "search_digits s =
     (case dropWhile (\<lambda>c. \<not> is_digit c) s of
        [] \<Rightarrow> None
      | c # r \<Rightarrow> Some (takeWhile is_digit (c # r)))"

definition int_of_digits :: "string \<Rightarrow> nat" where
  "int_of_digits ds = foldl (\<lambda>a c. 10 * a + digit_val c) 0 ds"

text \<open>
  \<^verbatim>\<open>sorted(images, key=...)\<close> computes the key of every path first (the first path
  without a digit raises) and then sorts stably by key, as \<open>sort_key\<close> does.
\<close>

fun decorate :: "string list \<Rightarrow> (nat \<times> string) list option" where
  "decorate [] = Some []"
| "decorate (s # ss) =
     (case search_digits s of
        None \<Rightarrow> None
      | Some ds \<Rightarrow>
          (case decorate ss of
             None \<Rightarrow> None
           | Some r \<Rightarrow> Some ((int_of_digits ds, s) # r)))"

definition sorted_by_number :: "string list \<Rightarrow> string list option" where
  "sorted_by_number images = map_option (\<lambda>kps. map snd (sort_key fst kps)) (decorate images)"

text \<open>
  The directory \<^verbatim>\<open>temp_video\<close> is kept as a list of (file name, image). The name of the
  frame for counter \<open>c\<close> is \<open>frame_name c\<close>, and \<open>frame_path n\<close> is its path as
  \<^verbatim>\<open>glob.glob("temp_video/*.png")\<close> returns it. The pattern matches the names that end in
  \<^verbatim>\<open>.png\<close> and do not start with a dot; a missing directory matches nothing.
\<close>

definition frame_name :: "int \<Rightarrow> string" where
  "frame_name c = ''frame_'' @ str c @ ''.png''"

definition frame_path :: "nat \<Rightarrow> string" where
  "frame_path n = ''temp_video/'' @ frame_name (int n)"

definition ends_with :: "string \<Rightarrow> string \<Rightarrow> bool" where
  "ends_with suf s = (length suf \<le> length s \<and> drop (length s - length suf) s = suf)"

definition hidden :: "string \<Rightarrow> bool" where
  "hidden b = (case b of [] \<Rightarrow> False | c # r \<Rightarrow> c = CHR ''.'')"

definition glob_png :: "(string \<times> image) list option \<Rightarrow> string list" where
  "glob_png dir =
     (case dir of
        None \<Rightarrow> []
      | Some entries \<Rightarrow>
          map (\<lambda>b. ''temp_video/'' @ b)
            (filter (\<lambda>b. ends_with ''.png'' b \<and> \<not> hidden b) (map fst entries)))"

definition imread :: "(string \<times> image) list option \<Rightarrow> string \<Rightarrow> image option" where
  "imread dir path =
     (case dir of
        None \<Rightarrow> None
      | Some entries \<Rightarrow> map_of (map (\<lambda>e. (''temp_video/'' @ fst e, snd e)) entries) path)"

definition write_file :: "string \<Rightarrow> artifact \<Rightarrow> visualizer \<Rightarrow> visualizer" where
  "write_file path a v = v\<lparr>files := filter (\<lambda>f. fst f \<noteq> path) (files v) @ [(path, a)]\<rparr>"

text \<open>
  \<^verbatim>\<open>vis.export_current_image(path)\<close> for a path in \<^verbatim>\<open>temp_video\<close>: the scene on display is
  stored under the file name, replacing a file of that name.
\<close>

definition export_current_image :: "string \<Rightarrow> visualizer \<Rightarrow> visualizer" where
  "export_current_image b v =
     v\<lparr>temp_video :=
         map_option (\<lambda>entries. filter (\<lambda>e. fst e \<noteq> b) entries @ [(b, geometry v)])
           (temp_video v)\<rparr>"

text \<open>
  \<^verbatim>\<open>_create_movie\<close>. \<^verbatim>\<open>images[0]\<close> raises \<^verbatim>\<open>IndexError\<close> on an empty list, before the video
  writer is created. The frame size read from the first image is not modelled; the
  video is the list of the images read, in the order they are written. Every path comes
  from the listing of the same directory, so every read finds its file.
\<close>

definition create_movie :: "visualizer \<Rightarrow> result" where
  "create_movie v =
     (let images = glob_png (temp_video v) in
      case sorted_by_number images of
        None \<Rightarrow> Inl (AttributeError, v)
      | Some [] \<Rightarrow> Inl (IndexError, v)
      | Some (first # rest) \<Rightarrow>
          (let video = Video (frame_rate v)
                         (List.map_filter (imread (temp_video v)) (first # rest));
               v1 = write_file (''ZnVis-Video.'' @ video_format v) video v
           in Inr (if \<not> store_run_files v then v1\<lparr>temp_video := None\<rparr> else v1)))"

section \<open>The recording pipeline\<close>

text \<open>
  One run of \<^verbatim>\<open>_record_trajectory\<close> on its driver thread, together with the GUI thread
  that executes the callables handed to \<^verbatim>\<open>post_to_main_thread\<close> in the order they were
  posted. \<open>posted\<close> is the queue of callables not yet started, \<open>in_callback\<close> the callable
  whose body has run and which has not yet set its flag, \<open>completed\<close> the progress
  counter and \<open>submitted\<close> the history of all posts (not a variable of the program).
  Every read or write of a shared attribute is a step of its own; the test of both
  flags is one step, since only the driver clears a flag and reading the two flags one
  after the other therefore gives what reading both at the time of the second read
  gives. \<open>finished\<close> is the state of the progress bar: the bar becomes finished in the
  update that brings \<open>completed\<close> to the total or beyond, not before the first update.
\<close>

datatype callable = Save_callable | Update_callable

datatype rec_pc =
  While_test | Sleep | If_both | Clear_save | Post_save | Progress_update
  | If_update | Clear_update | Post_update | Settle | Finished | Crashed error

record app =
  self :: visualizer

record session = app +
  pc :: rec_pc
  completed :: int
  finished :: bool
  posted :: "callable list"
  in_callback :: "callable option"
  submitted :: "callable list"

definition record_trajectory :: "visualizer \<Rightarrow> session" where
  "record_trajectory v =
     \<lparr> self = v\<lparr>update_thread_finished := True, save_thread_finished := True\<rparr>,
       pc = While_test, completed = 0, finished = False, posted = [], in_callback = None,
       submitted = [] \<rparr>"

text \<open>
  \<^verbatim>\<open>time.sleep(1 / self.frame_rate)\<close> raises \<^verbatim>\<open>ZeroDivisionError\<close> for a frame rate of
  zero and \<^verbatim>\<open>ValueError\<close> for a negative one; the exception ends the thread.
\<close>

definition sleep_tick :: "visualizer \<Rightarrow> error option" where
  "sleep_tick v =
     (if frame_rate v = 0 then Some ZeroDivisionError
      else if frame_rate v < 0 then Some ValueError else None)"

definition driver_step :: "session \<Rightarrow> session" where
  "driver_step s =
     (case pc s of
        While_test \<Rightarrow> s\<lparr>pc := (if finished s then Settle else Sleep)\<rparr>
      | Sleep \<Rightarrow>
          s\<lparr>pc := (case sleep_tick (self s) of Some e \<Rightarrow> Crashed e | None \<Rightarrow> If_both)\<rparr>
      | If_both \<Rightarrow>
          s\<lparr>pc := (if save_thread_finished (self s) \<and> update_thread_finished (self s)
                   then Clear_save else If_update)\<rparr>
      | Clear_save \<Rightarrow> s\<lparr>self := (self s)\<lparr>save_thread_finished := False\<rparr>, pc := Post_save\<rparr>
      | Post_save \<Rightarrow>
          s\<lparr>posted := posted s @ [Save_callable],
            submitted := submitted s @ [Save_callable], pc := Progress_update\<rparr>
      | Progress_update \<Rightarrow>
          s\<lparr>completed := completed s + 1,
            finished := (finished s \<or> number_of_steps (self s) \<le> completed s + 1),
            pc := If_update\<rparr>
      | If_update \<Rightarrow>
          s\<lparr>pc := (if update_thread_finished (self s) then Clear_update else While_test)\<rparr>
      | Clear_update \<Rightarrow>
          s\<lparr>self := (self s)\<lparr>update_thread_finished := False\<rparr>, pc := Post_update\<rparr>
      | Post_update \<Rightarrow>
          s\<lparr>posted := posted s @ [Update_callable],
            submitted := submitted s @ [Update_callable], pc := While_test\<rparr>
      | Settle \<Rightarrow>
          (case create_movie (self s) of
             Inl (e, v) \<Rightarrow> s\<lparr>self := v, pc := Crashed e\<rparr>
           | Inr v \<Rightarrow> s\<lparr>self := v, pc := Finished\<rparr>)
      | Finished \<Rightarrow> s
      | Crashed e \<Rightarrow> s)"

text \<open>
  A step of the GUI thread: it finishes the callable it is in by setting the flag, or
  starts the next posted one. An \<^verbatim>\<open>update_callable\<close> whose \<^verbatim>\<open>_update_particles\<close> raises
  ends there and never sets its flag.
\<close>

definition gui_step :: "session \<Rightarrow> session" where
  "gui_step s =
     (case in_callback s of
        Some Save_callable \<Rightarrow>
          s\<lparr>self := (self s)\<lparr>save_thread_finished := True\<rparr>, in_callback := None\<rparr>
      | Some Update_callable \<Rightarrow>
          s\<lparr>self := (self s)\<lparr>update_thread_finished := True\<rparr>, in_callback := None\<rparr>
      | None \<Rightarrow>
          (case posted s of
             [] \<Rightarrow> s
           | Save_callable # rest \<Rightarrow>
               s\<lparr>self := export_current_image (frame_name (counter (self s))) (self s),
                 posted := rest, in_callback := Some Save_callable\<rparr>
           | Update_callable # rest \<Rightarrow>
               (case update_particles None (self s) of
                  Inl (e, v) \<Rightarrow> s\<lparr>self := v, posted := rest\<rparr>
                | Inr v \<Rightarrow> s\<lparr>self := v, posted := rest, in_callback := Some Update_callable\<rparr>)))"

datatype actor = Driver | Gui

definition session_step :: "actor \<Rightarrow> session \<Rightarrow> session" where
  "session_step a s = (case a of Driver \<Rightarrow> driver_step s | Gui \<Rightarrow> gui_step s)"

fun run_session :: "actor list \<Rightarrow> session \<Rightarrow> session" where
  "run_session [] s = s"
| "run_session (a # as) s = run_session as (session_step a s)"

text \<open>The number of callables of one kind that are posted and have not completed.\<close>

definition outstanding :: "callable \<Rightarrow> session \<Rightarrow> nat" where
  "outstanding c s = count_list (posted s) c + (if in_callback s = Some c then 1 else 0)"

text \<open>The invariant that carries the handshake through every step of a run.\<close>

definition handshake_inv :: "session \<Rightarrow> bool" where
  "handshake_inv s \<longleftrightarrow>
     outstanding Save_callable s \<le> 1 \<and> outstanding Update_callable s \<le> 1
     \<and> (0 < outstanding Save_callable s \<longrightarrow> \<not> save_thread_finished (self s))
     \<and> (0 < outstanding Update_callable s \<longrightarrow> \<not> update_thread_finished (self s))
     \<and> (pc s = Clear_save \<longrightarrow> save_thread_finished (self s))
     \<and> (pc s = Post_save \<longrightarrow> \<not> save_thread_finished (self s) \<and> outstanding Save_callable s = 0)
     \<and> (pc s = Clear_update \<longrightarrow> update_thread_finished (self s))
     \<and> (pc s = Post_update \<longrightarrow>
           \<not> update_thread_finished (self s) \<and> outstanding Update_callable s = 0)"

text \<open>
  \<^verbatim>\<open>_export_video\<close>: \<^verbatim>\<open>os.mkdir\<close> raises \<^verbatim>\<open>FileExistsError\<close> when the directory exists, and
  the recording thread is started only after it returned.
\<close>

definition export_video :: "visualizer \<Rightarrow> (error \<times> visualizer) + session" where
  "export_video v =
     (let v1 = v\<lparr>interrupt := 0\<rparr> in
      case temp_video v1 of
        Some entries \<Rightarrow> Inl (FileExistsError, v1)
      | None \<Rightarrow> Inr (record_trajectory (v1\<lparr>temp_video := Some []\<rparr>)))"

text \<open>
  One tick of the driver during whose sleep the GUI thread completes both callables,
  and the run made of \<open>n\<close> such ticks followed by the loop test that ends the loop.
\<close>

definition tick :: "actor list" where
  "tick = replicate 9 Driver @ replicate 4 Gui"

definition lockstep :: "nat \<Rightarrow> actor list" where
  "lockstep n = concat (replicate n tick) @ [Driver]"

text \<open>
  An interleaving in which the first advance completes between the two tests of the
  second tick, so that a second advance is posted before the next capture.
\<close>

definition race :: "actor list" where
  "race = replicate 9 Driver @ [Gui, Gui]
        @ [Driver, Driver, Driver, Gui, Gui, Driver, Driver, Driver, Gui, Gui]
        @ tick @ tick @ [Driver]"

text \<open>The names of the files in the directory \<^verbatim>\<open>temp_video\<close>, in directory order.\<close>

definition frame_files :: "session \<Rightarrow> string list" where
  "frame_files s = (case temp_video (self s) of None \<Rightarrow> [] | Some entries \<Rightarrow> map fst entries)"

text \<open>Every particle has a mesh for every step from 0 to the step count minus one.\<close>

definition meshes_present :: "visualizer \<Rightarrow> bool" where
  "meshes_present v \<longleftrightarrow>
     (\<forall>p \<in> set (particles v). \<forall>c \<in> set [0..number_of_steps v - 1]. mesh_dict p c \<noteq> None)"

text \<open>The invariant of the driver loop for a step count \<open>S\<close>.\<close>

definition loop_inv :: "int \<Rightarrow> session \<Rightarrow> bool" where
  "loop_inv S s \<longleftrightarrow>
     number_of_steps (self s) = S \<and> 0 \<le> counter (self s) \<and> counter (self s) < S
     \<and> int (count_list (submitted s) Save_callable) =
         completed s + (if pc s = Progress_update then 1 else 0)
     \<and> completed s \<le> S \<and> (finished s \<longleftrightarrow> S \<le> completed s)
     \<and> (pc s \<in> {Sleep, If_both, Clear_save, Post_save, Progress_update} \<longrightarrow> completed s < S)
     \<and> (pc s \<in> {Settle, Finished} \<longrightarrow> completed s = S)
     \<and> set (frame_files s) \<subseteq> frame_name ` {0..<S}"

section \<open>Export Scene\<close>

text \<open>
  The loop of \<^verbatim>\<open>_export_scene\<close> after its first iteration: \<^verbatim>\<open>mesh += item.mesh_dict[...]\<close>
  for the remaining particles. The result is the mesh accumulated so far and the
  exception, if a particle has no mesh for the step.
\<close>

fun add_meshes :: "int \<Rightarrow> particle list \<Rightarrow> mesh \<Rightarrow> error option \<times> mesh" where
  "add_meshes c [] acc = (None, acc)"
| "add_meshes c (item # rest) acc =
     (case mesh_dict item c of
        None \<Rightarrow> (Some LookupError, acc)
      | Some m \<Rightarrow> add_meshes c rest (acc @ m))"

text \<open>
  \<^verbatim>\<open>_export_scene\<close> from \<^verbatim>\<open>self.interrupt = 0\<close> to \<^verbatim>\<open>write_triangle_mesh\<close>. The variable
  \<^verbatim>\<open>mesh\<close> is the mesh object of the first particle for the current step, and \<^verbatim>\<open>+=\<close>
  changes that object: afterwards the first particle's \<^verbatim>\<open>mesh_dict\<close> holds the sum (the
  mesh objects of different particles and steps are taken to be different objects).
  With no particle, \<^verbatim>\<open>mesh\<close> is unbound at the write. The library writes no file for a
  mesh without triangles (\<^verbatim>\<open>write_triangle_mesh\<close> returns \<^verbatim>\<open>False\<close> then), and the
  method does not look at what it returns.
\<close>

definition export_scene_body :: "visualizer \<Rightarrow> result" where
  "export_scene_body v =
     (let v1 = v\<lparr>interrupt := 0\<rparr> in
      case particles v1 of
        [] \<Rightarrow> Inl (UnboundLocalError, v1)
      | item # rest \<Rightarrow>
          (case mesh_dict item (counter v1) of
             None \<Rightarrow> Inl (LookupError, v1)
           | Some m0 \<Rightarrow>
               (case add_meshes (counter v1) rest m0 of
                  (err, acc) \<Rightarrow>
                    (let v2 = v1\<lparr>particles :=
                                 item\<lparr>mesh_dict := (mesh_dict item)(counter v1 \<mapsto> acc)\<rparr> # rest\<rparr>
                     in case err of
                          Some e \<Rightarrow> Inl (e, v2)
                        | None \<Rightarrow>
                            Inr (if acc = [] then v2
                                 else write_file (''My_mesh_'' @ str (counter v2) @ ''.ply'')
                                        (Ply acc) v2)))))"

section \<open>Playback\<close>

text \<open>
  The run loops of \<^verbatim>\<open>_run_trajectory\<close>, one per started thread, beside the GUI thread,
  which runs the actions of the window and the posted \<^verbatim>\<open>_update_particles\<close> calls one
  at a time. \<open>threads\<close> holds the position of every thread ever started, \<open>gui_posted\<close>
  the number of posted calls not yet run, and \<open>old_state\<close> the local variable of an
  \<^verbatim>\<open>_export_scene\<close> that has written its file and not yet returned (while it is set the
  GUI thread runs nothing else).
\<close>

datatype run_pc =
  Set_running | Run_while | Run_sleep | Run_post | Run_check | Run_reset
  | Run_finished | Run_crashed error

record player = app +
  threads :: "run_pc list"
  gui_posted :: nat
  old_state :: "int option"

datatype event = Play | Step | Export_scene_begin | Export_scene_end | Redraw | Thread nat

definition pause_run :: "visualizer \<Rightarrow> visualizer" where
  "pause_run v = v\<lparr>interrupt := 0\<rparr>"

definition continuous_trajectory :: "player \<Rightarrow> player" where
  "continuous_trajectory p =
     (if interrupt (self p) = 1 then p\<lparr>self := pause_run (self p)\<rparr>
      else p\<lparr>threads := threads p @ [Set_running]\<rparr>)"

text \<open>One step of the thread at position \<open>i\<close>; every line of \<^verbatim>\<open>_run_trajectory\<close> is a step.\<close>

definition thread_step :: "nat \<Rightarrow> player \<Rightarrow> player" where
  "thread_step i p =
     (case threads p ! i of
        Set_running \<Rightarrow>
          p\<lparr>self := (self p)\<lparr>interrupt := 1\<rparr>, threads := (threads p)[i := Run_while]\<rparr>
      | Run_while \<Rightarrow>
          p\<lparr>threads := (threads p)
              [i := (if counter (self p) < number_of_steps (self p) then Run_sleep
                     else Run_reset)]\<rparr>
      | Run_sleep \<Rightarrow>
          p\<lparr>threads := (threads p)
              [i := (case sleep_tick (self p) of Some e \<Rightarrow> Run_crashed e | None \<Rightarrow> Run_post)]\<rparr>
      | Run_post \<Rightarrow>
          p\<lparr>gui_posted := Suc (gui_posted p), threads := (threads p)[i := Run_check]\<rparr>
      | Run_check \<Rightarrow>
          p\<lparr>threads := (threads p)
              [i := (if interrupt (self p) = 0 then Run_reset else Run_while)]\<rparr>
      | Run_reset \<Rightarrow>
          p\<lparr>self := (self p)\<lparr>interrupt := 0\<rparr>, threads := (threads p)[i := Run_finished]\<rparr>
      | Run_finished \<Rightarrow> p
      | Run_crashed e \<Rightarrow> p)"

definition player_step :: "event \<Rightarrow> player \<Rightarrow> player" where
  "player_step e p =
     (case e of
        Thread i \<Rightarrow> (if i < length (threads p) then thread_step i p else p)
      | Export_scene_end \<Rightarrow>
          (case old_state p of
             None \<Rightarrow> p
           | Some old \<Rightarrow>
               (if old = 1 then continuous_trajectory (p\<lparr>old_state := None\<rparr>)
                else p\<lparr>old_state := None\<rparr>))
      | Play \<Rightarrow> (if old_state p = None then continuous_trajectory p else p)
      | Step \<Rightarrow>
          (if old_state p = None then p\<lparr>self := state_of (update_particles None (self p))\<rparr>
           else p)
      | Redraw \<Rightarrow>
          (if old_state p = None \<and> 0 < gui_posted p
           then p\<lparr>self := state_of (update_particles None (self p)),
                  gui_posted := gui_posted p - 1\<rparr>
           else p)
      | Export_scene_begin \<Rightarrow>
          (if old_state p = None
           then (case export_scene_body (self p) of
                   Inl (e, v) \<Rightarrow> p\<lparr>self := v\<rparr>
                 | Inr v \<Rightarrow> p\<lparr>self := v, old_state := Some (interrupt (self p))\<rparr>)
           else p))"

fun run_player :: "event list \<Rightarrow> player \<Rightarrow> player" where
  "run_player [] p = p"
| "run_player (e # es) p = run_player es (player_step e p)"

fun is_active :: "run_pc \<Rightarrow> bool" where
  "is_active Run_finished = False"
| "is_active (Run_crashed e) = False"
| "is_active q = True"

definition active :: "player \<Rightarrow> nat" where
  "active p = length (filter is_active (threads p))"

section \<open>An example\<close>

text \<open>A visualizer with one particle that has meshes for the steps 0 to 2, showing step 0.\<close>

definition demo_particle :: particle where
  "demo_particle =
     \<lparr> name = ''Blue'', position = [[0], [1], [2]],
       mesh_dict = map_of [(0, [0]), (1, [1]), (2, [2])] \<rparr>"

definition demo :: visualizer where
  "demo =
     \<lparr> particles = [demo_particle], frame_rate = 10, number_of_steps = 3,
       store_run_files = False, video_format = ''avi'', counter = 0, interrupt = 0,
       update_thread_finished = False, save_thread_finished = False,
       geometry = [(''Blue'', [0])], redraws = 0,
       temp_video = None, files = [] \<rparr>"




text \<open>A second example with two particles, playing with one run loop in its sleep.\<close>

definition demo_pair :: visualizer where
  "demo_pair =
     demo\<lparr>particles :=
            [demo_particle,
             \<lparr> name = ''Orange'', position = [[5], [6], [7]],
               mesh_dict = map_of [(0, [10]), (1, [11]), (2, [12])] \<rparr>],
          interrupt := 1\<rparr>"

definition playing_pair :: player where
  "playing_pair = \<lparr> self = demo_pair, threads = [Run_sleep], gui_posted = 0, old_state = None \<rparr>"

section \<open>Schedules and invariants of playback\<close>


definition short_export :: "event list" where
  "short_export = [Export_scene_begin, Export_scene_end, Thread 1, Thread 0, Thread 0, Thread 0]"

definition late_pause :: "event list" where
  "late_pause = [Export_scene_begin, Export_scene_end, Thread 0, Thread 0, Thread 0, Thread 1,
                 Thread 0, Thread 1, Thread 1, Thread 1, Thread 1, Thread 1]"












section \<open>Properties of drawing and stepping\<close>

lemma draw_particles_keeps:
  "counter (state_of (draw_particles initial ps v)) = counter v
   \<and> number_of_steps (state_of (draw_particles initial ps v)) = number_of_steps v"
  by (induction ps arbitrary: v)
     (auto simp: state_of_def remove_geometry_def add_geometry_def Let_def split: option.splits)

lemma update_particles_counter:
  "counter (state_of (update_particles None v)) =
     (if counter v = number_of_steps v - 1 then 0 else counter v + 1)"
proof -
  define v1 where
    "v1 = (if counter v = number_of_steps v - 1 then v\<lparr>counter := 0\<rparr>
           else v\<lparr>counter := counter v + 1\<rparr>)"
  have "counter (state_of (update_particles None v)) =
          counter (state_of (draw_particles False (particles v1) v1))"
    by (cases "draw_particles False (particles v1) v1")
       (auto simp: update_particles_def v1_def state_of_def post_redraw_def)
  then show ?thesis
    using draw_particles_keeps [of False "particles v1" v1] by (simp add: v1_def)
qed

lemma update_particles_steps:
  "number_of_steps (state_of (update_particles step v)) = number_of_steps v"
proof -
  define v1 where
    "v1 = (case step of
             None \<Rightarrow>
               (if counter v = number_of_steps v - 1 then v\<lparr>counter := 0\<rparr>
                else v\<lparr>counter := counter v + 1\<rparr>)
           | Some k \<Rightarrow> v)"
  have "number_of_steps (state_of (update_particles step v)) =
          number_of_steps (state_of (draw_particles False (particles v1) v1))"
    by (cases "draw_particles False (particles v1) v1")
       (auto simp: update_particles_def v1_def state_of_def post_redraw_def)
  then show ?thesis
    using draw_particles_keeps [of False "particles v1" v1]
    by (simp add: v1_def split: option.splits)
qed

lemma advance_mod:
  assumes "1 \<le> (S::int)" "0 \<le> c" "c < S"
  shows "(if c = S - 1 then 0 else c + 1) = (c + 1) mod S"
  using assms by auto

lemma step_action_counter:
  assumes "1 \<le> number_of_steps v" "0 \<le> counter v" "counter v < number_of_steps v"
  shows "counter (step_action n v) = (counter v + int n) mod number_of_steps v
         \<and> number_of_steps (step_action n v) = number_of_steps v"
  using assms
proof (induction n arbitrary: v)
  case 0
  then show ?case by simp
next
  case (Suc n)
  let ?w = "state_of (update_particles None v)"
  have c: "counter ?w = (counter v + 1) mod number_of_steps v"
    using Suc.prems by (simp only: update_particles_counter advance_mod)
  have s: "number_of_steps ?w = number_of_steps v"
    by (rule update_particles_steps)
  have "counter (step_action n ?w) = (counter ?w + int n) mod number_of_steps ?w
        \<and> number_of_steps (step_action n ?w) = number_of_steps ?w"
    using Suc.prems c s by (intro Suc.IH) simp_all
  moreover have "((counter v + 1) mod number_of_steps v + int n) mod number_of_steps v =
                 (counter v + int (Suc n)) mod number_of_steps v"
    unfolding mod_add_left_eq by (simp add: algebra_simps)
  ultimately show ?case
    by (simp only: step_action.simps c s)
qed

text \<open>
  Claim C3. For a step count \<open>S \<ge> 1\<close> and a counter \<open>c\<close> with \<open>0 \<le> c < S\<close>, one advance
  without an explicit step leaves the counter at \<open>(c + 1) mod S\<close>, which is again in
  \<open>[0, S)\<close> (the last step wraps to 0); the counter stays in that range over any number
  of advances, and \<open>S\<close> advances from counter 0 bring it back to 0.
\<close>

theorem step_counter_wraps:
  assumes "1 \<le> number_of_steps v" "0 \<le> counter v" "counter v < number_of_steps v"
  shows "counter (state_of (update_particles None v)) = (counter v + 1) mod number_of_steps v
       \<and> (counter v = number_of_steps v - 1
            \<longrightarrow> counter (state_of (update_particles None v)) = 0)
       \<and> 0 \<le> counter (step_action n v) \<and> counter (step_action n v) < number_of_steps v
       \<and> counter (step_action (nat (number_of_steps v)) (v\<lparr>counter := 0\<rparr>)) = 0"
proof -
  have one: "counter (state_of (update_particles None v)) = (counter v + 1) mod number_of_steps v"
    using assms by (simp only: update_particles_counter advance_mod)
  have wrap: "counter v = number_of_steps v - 1
                \<longrightarrow> counter (state_of (update_particles None v)) = 0"
    by (simp add: update_particles_counter)
  have "counter (step_action n v) = (counter v + int n) mod number_of_steps v"
    using step_action_counter [OF assms] by simp
  then have range: "0 \<le> counter (step_action n v) \<and> counter (step_action n v) < number_of_steps v"
    using assms(1) by simp
  have "counter (step_action (nat (number_of_steps v)) (v\<lparr>counter := 0\<rparr>)) =
          (0 + int (nat (number_of_steps v))) mod number_of_steps v"
    using step_action_counter [of "v\<lparr>counter := 0\<rparr>" "nat (number_of_steps v)"] assms(1)
    by simp
  then have loop: "counter (step_action (nat (number_of_steps v)) (v\<lparr>counter := 0\<rparr>)) = 0"
    using assms(1) by simp
  from one wrap range loop show ?thesis by blast
qed

theorem step_counter_wraps_witness:
  "counter (state_of (update_particles None (demo\<lparr>counter := 2\<rparr>))) = 0
   \<and> counter (step_action 7 (demo\<lparr>counter := 2\<rparr>)) < 3
   \<and> counter (step_action 3 demo) = 0"
  using step_counter_wraps [of "demo\<lparr>counter := 2\<rparr>" 7]
  by (simp add: demo_def)

section \<open>Properties of the assembler\<close>

lemma digit_char_ok: "d < 10 \<Longrightarrow> is_digit (digit_char d) \<and> digit_val (digit_char d) = d"
  by (simp add: is_digit_def digit_char_def digit_val_def)

lemma str_nat_digits:
  "str_nat n \<noteq> [] \<and> (\<forall>c \<in> set (str_nat n). is_digit c) \<and> int_of_digits (str_nat n) = n"
proof (induction n rule: str_nat.induct)
  case (1 n)
  show ?case
  proof (cases "n < 10")
    case True
    then show ?thesis
      using digit_char_ok [of n] by (simp add: int_of_digits_def str_nat.simps [of n])
  next
    case False
    then show ?thesis
      using 1 digit_char_ok [of "n mod 10"]
      by (subst (1 2 3) str_nat.simps) (auto simp: int_of_digits_def)
  qed
qed

lemma search_digits_embedded:
  assumes "\<forall>c \<in> set pre. \<not> is_digit c" "ds \<noteq> []" "\<forall>c \<in> set ds. is_digit c"
    and "post = [] \<or> \<not> is_digit (hd post)"
  shows "search_digits (pre @ ds @ post) = Some ds"
proof -
  obtain d dr where ds: "ds = d # dr" using assms(2) by (cases ds) auto
  have "dropWhile (\<lambda>c. \<not> is_digit c) (pre @ ds @ post) = ds @ post"
    using assms(1,3) ds by (simp add: dropWhile_append3)
  moreover have "takeWhile is_digit (ds @ post) = ds"
  proof (cases post)
    case Nil
    then show ?thesis using assms(3) by simp
  next
    case (Cons p ps)
    then show ?thesis using assms(3,4) by (simp add: takeWhile_tail)
  qed
  ultimately show ?thesis
    using ds by (simp add: search_digits_def)
qed

lemma frame_path_key: "search_digits (frame_path n) = Some (str_nat n)"
proof -
  have "search_digits (''temp_video/frame_'' @ str_nat n @ ''.png'') = Some (str_nat n)"
    using str_nat_digits [of n]
    by (intro search_digits_embedded) (simp_all add: is_digit_def)
  then show ?thesis
    by (simp add: frame_path_def frame_name_def str_def)
qed

lemma frame_path_inj: "frame_path n = frame_path m \<Longrightarrow> n = m"
proof -
  assume "frame_path n = frame_path m"
  then have "search_digits (frame_path n) = search_digits (frame_path m)" by simp
  then have "int_of_digits (str_nat n) = int_of_digits (str_nat m)" by (simp add: frame_path_key)
  then show "n = m" using str_nat_digits by simp
qed

lemma frame_name_inj: "frame_name (int n) = frame_name (int m) \<Longrightarrow> n = m"
  using frame_path_inj [of n m] by (simp add: frame_path_def)

lemma decorate_frames: "decorate (map frame_path ns) = Some (map (\<lambda>n. (n, frame_path n)) ns)"
  by (induction ns) (simp_all add: frame_path_key str_nat_digits)

lemma insort_key_decorated:
  "insort_key fst (n, f n) (map (\<lambda>n. (n, f n)) ns) = map (\<lambda>n. (n, f n)) (insort_key (\<lambda>n. n) n ns)"
  by (induction ns) simp_all

lemma sort_key_decorated:
  "sort_key fst (map (\<lambda>n. (n, f n)) ns) = map (\<lambda>n. (n, f n)) (sort_key (\<lambda>n. n) ns)"
  by (induction ns) (simp_all add: insort_key_decorated)

lemma sorted_by_number_frames:
  "sorted_by_number (map frame_path ns) = Some (map frame_path (sort ns))"
  by (simp add: sorted_by_number_def decorate_frames sort_key_decorated comp_def)

lemma frame_name_matches: "ends_with ''.png'' (frame_name c) \<and> \<not> hidden (frame_name c)"
  by (simp add: ends_with_def frame_name_def hidden_def)

lemma glob_png_frames:
  "glob_png (Some (map (\<lambda>n. (frame_name (int n), img n)) ns)) = map frame_path ns"
  by (induction ns) (simp_all add: glob_png_def frame_name_matches frame_path_def)

lemma imread_frames:
  assumes "m \<in> set ns"
  shows "imread (Some (map (\<lambda>n. (frame_name (int n), img n)) ns)) (frame_path m) = Some (img m)"
  using assms
proof (induction ns)
  case Nil
  then show ?case by simp
next
  case (Cons n ns)
  then show ?case
    using frame_path_inj [of n m]
    by (auto simp: imread_def comp_def frame_path_def)
qed

lemma map_filter_frames:
  assumes "set ms \<subseteq> set ns"
  shows "List.map_filter (imread (Some (map (\<lambda>n. (frame_name (int n), img n)) ns))) (map frame_path ms)
           = map img ms"
  using assms by (induction ms) (simp_all add: imread_frames)

text \<open>
  Claim C6. For a directory holding the frame files of the distinct indices \<open>ns\<close>, in
  any directory order, the assembler sorts the paths by the number embedded in the name
  and writes the images into the video in that order: the frames of the video are the
  images of the indices in increasing numeric order. For the files \<^verbatim>\<open>frame_2.png\<close>,
  \<^verbatim>\<open>frame_10.png\<close>, \<^verbatim>\<open>frame_1.png\<close> the order is 1, 2, 10.
\<close>

theorem create_movie_numeric_order:
  assumes "temp_video v = Some (map (\<lambda>n. (frame_name (int n), img n)) ns)"
    and "ns \<noteq> []" and "distinct ns"
  shows "sorted_by_number (glob_png (temp_video v)) = Some (map frame_path (sort ns))
       \<and> create_movie v =
           Inr ((write_file (''ZnVis-Video.'' @ video_format v)
                   (Video (frame_rate v) (map img (sort ns))) v)
                \<lparr>temp_video := (if store_run_files v then temp_video v else None)\<rparr>)"
proof -
  let ?dir = "Some (map (\<lambda>n. (frame_name (int n), img n)) ns)"
  have order: "sorted_by_number (glob_png (temp_video v)) = Some (map frame_path (sort ns))"
    by (simp add: assms(1) glob_png_frames sorted_by_number_frames)
  obtain first rest where fr: "map frame_path (sort ns) = first # rest"
    using assms(2) by (cases "sort ns") (auto dest: arg_cong [where f = length])
  have frames: "List.map_filter (imread (temp_video v)) (first # rest) = map img (sort ns)"
    unfolding fr [symmetric] assms(1) by (intro map_filter_frames) simp
  have "create_movie v =
          Inr (if \<not> store_run_files v
               then (write_file (''ZnVis-Video.'' @ video_format v)
                       (Video (frame_rate v) (map img (sort ns))) v)\<lparr>temp_video := None\<rparr>
               else write_file (''ZnVis-Video.'' @ video_format v)
                       (Video (frame_rate v) (map img (sort ns))) v)"
    unfolding create_movie_def Let_def order fr
    by (simp add: frames del: List.map_filter_simps)
  moreover have "temp_video (write_file p a v) = temp_video v" for p a
    by (simp add: write_file_def)
  ultimately show ?thesis
    using order by simp
qed

theorem create_movie_numeric_order_witness:
  "create_movie (demo\<lparr>temp_video :=
       Some [(''frame_2.png'', [(''Blue'', [2])]), (''frame_10.png'', [(''Blue'', [10])]),
             (''frame_1.png'', [(''Blue'', [1])])]\<rparr>)
     = Inr (demo\<lparr>files := [(''ZnVis-Video.avi'',
              Video 10 [[(''Blue'', [1])], [(''Blue'', [2])], [(''Blue'', [10])]])]\<rparr>)"
proof -
  let ?v = "demo\<lparr>temp_video :=
       Some [(''frame_2.png'', [(''Blue'', [2])]), (''frame_10.png'', [(''Blue'', [10])]),
             (''frame_1.png'', [(''Blue'', [1])])]\<rparr>"
  have names: "frame_name 2 = ''frame_2.png'' \<and> frame_name 10 = ''frame_10.png''
               \<and> frame_name 1 = ''frame_1.png''"
    by code_simp
  have dir: "temp_video ?v = Some (map (\<lambda>n. (frame_name (int n), [(''Blue'', [n])])) [2, 10, 1])"
    using names by simp
  show ?thesis
    using create_movie_numeric_order [of ?v "\<lambda>n. [(''Blue'', [n])]" "[2, 10, 1]", OF dir]
    by (simp add: demo_def write_file_def)
qed

text \<open>
  Claim C7. When the directory holds no frame image (or does not exist), the assembler
  raises \<^verbatim>\<open>IndexError\<close> at \<^verbatim>\<open>images[0]\<close> and leaves the state as it found it: no video
  file has been created.
\<close>

theorem create_movie_empty:
  assumes "glob_png (temp_video v) = []"
  shows "create_movie v = Inl (IndexError, v)"
  using assms by (simp add: create_movie_def sorted_by_number_def)

theorem create_movie_empty_witness:
  "glob_png (temp_video (demo\<lparr>temp_video := Some []\<rparr>)) = []
   \<and> create_movie (demo\<lparr>temp_video := Some []\<rparr>) = Inl (IndexError, demo\<lparr>temp_video := Some []\<rparr>)
   \<and> files (state_of (create_movie (demo\<lparr>temp_video := Some []\<rparr>))) = []"
proof -
  have e: "glob_png (temp_video (demo\<lparr>temp_video := Some []\<rparr>)) = []"
    by (simp add: glob_png_def)
  show ?thesis
    using e create_movie_empty [OF e] by (simp add: state_of_def demo_def)
qed

text \<open>
  Claim C4 (the code departs from it). \<^verbatim>\<open>_update_particles\<close> called with the explicit
  step 2 on the example, whose counter is 0: the counter is still 0 afterwards and the
  scene shows the mesh of step 0, not of step 2. Without a step the counter advances.
\<close>

theorem update_particles_explicit_step:
  "update_particles (Some 2) demo = Inr (demo\<lparr>redraws := 1\<rparr>)
   \<and> counter (state_of (update_particles (Some 2) demo)) = 0
   \<and> geometry (state_of (update_particles (Some 2) demo)) = [(''Blue'', [0])]
   \<and> counter (state_of (update_particles None demo)) = 1"
  by (simp add: update_particles_def demo_def demo_particle_def state_of_def
      remove_geometry_def add_geometry_def post_redraw_def)

text \<open>
  Claim C9, as the constructor behaves. The constructor checks nothing. Given a step
  count it always succeeds and stores its arguments, whatever the particle list, the
  frame rate and the trajectories are. Without a step count it raises \<^verbatim>\<open>IndexError\<close> on
  an empty particle list and otherwise takes the length of the first trajectory. A
  frame rate that is not positive surfaces at the first sleep of the recording driver
  and of the playback loop (\<^verbatim>\<open>ZeroDivisionError\<close> for zero, \<^verbatim>\<open>ValueError\<close> for a negative
  rate), and a step for which a particle has no mesh surfaces as the out-of-range
  error at the draw that needs it.
\<close>

theorem init_checks_nothing:
  "init ps rate (Some n) store fmt tv fs =
     Inr \<lparr> particles = ps, frame_rate = rate, number_of_steps = n,
           store_run_files = store, video_format = fmt, counter = 0, interrupt = 0,
           update_thread_finished = False, save_thread_finished = False,
           geometry = [], redraws = 0, temp_video = tv, files = fs \<rparr>
   \<and> init [] rate None store fmt tv fs = Inl IndexError
   \<and> init (p # ps) rate None store fmt tv fs =
       init (p # ps) rate (Some (int (length (position p)))) store fmt tv fs
   \<and> pc (driver_step ((record_trajectory v)\<lparr>pc := Sleep\<rparr>)) =
       (if frame_rate v = 0 then Crashed ZeroDivisionError
        else if frame_rate v < 0 then Crashed ValueError else If_both)
   \<and> threads (thread_step 0 \<lparr>self = v, threads = [Run_sleep], gui_posted = k, old_state = None\<rparr>) =
       [if frame_rate v = 0 then Run_crashed ZeroDivisionError
        else if frame_rate v < 0 then Run_crashed ValueError else Run_post]
   \<and> draw_particles True (q\<lparr>mesh_dict := (mesh_dict q)(counter v := None)\<rparr> # qs) v =
       Inl (LookupError, v)"
  by (simp add: init_def driver_step_def record_trajectory_def sleep_tick_def thread_step_def)

theorem init_accepts_bad_configuration:
  "\<not> isl (init [] 0 (Some 5) False ''avi'' None [])
   \<and> \<not> isl (init [demo_particle] (- 1) (Some 9) False ''avi'' None [])"
  by (simp add: init_def)

section \<open>Properties of the recording pipeline\<close>

lemma draw_particles_scene: "\<exists>g. state_of (draw_particles initial ps v) = v\<lparr>geometry := g\<rparr>"
proof (induction ps arbitrary: v)
  case Nil
  have "state_of (draw_particles initial [] v) = v\<lparr>geometry := geometry v\<rparr>"
    by (simp add: state_of_def)
  then show ?case by blast
next
  case (Cons item rest)
  let ?v1 = "if initial then v else remove_geometry (name item) v"
  show ?case
  proof (cases "mesh_dict item (counter ?v1)")
    case None
    then have "state_of (draw_particles initial (item # rest) v) = v\<lparr>geometry := geometry ?v1\<rparr>"
      by (cases initial) (simp_all add: state_of_def remove_geometry_def)
    then show ?thesis by blast
  next
    case (Some m)
    obtain g where "state_of (draw_particles initial rest (add_geometry (name item) m ?v1)) =
        (add_geometry (name item) m ?v1)\<lparr>geometry := g\<rparr>"
      using Cons.IH by blast
    then have "state_of (draw_particles initial (item # rest) v) = v\<lparr>geometry := g\<rparr>"
      using Some by (cases initial) (simp_all add: add_geometry_def remove_geometry_def)
    then show ?thesis by blast
  qed
qed

lemma update_particles_scene:
  "\<exists>c g r. state_of (update_particles step v) = v\<lparr>counter := c, geometry := g, redraws := r\<rparr>"
proof -
  define v1 where
    "v1 = (case step of
             None \<Rightarrow>
               (if counter v = number_of_steps v - 1 then v\<lparr>counter := 0\<rparr>
                else v\<lparr>counter := counter v + 1\<rparr>)
           | Some k \<Rightarrow> v)"
  obtain g where g: "state_of (draw_particles False (particles v1) v1) = v1\<lparr>geometry := g\<rparr>"
    using draw_particles_scene by blast
  have v1: "v1 = v\<lparr>counter := counter v1\<rparr>"
    by (simp add: v1_def split: option.splits)
  have "state_of (update_particles step v) = v1\<lparr>geometry := g, redraws := redraws v1\<rparr>
        \<or> state_of (update_particles step v) = v1\<lparr>geometry := g, redraws := Suc (redraws v1)\<rparr>"
    using g
    by (cases "draw_particles False (particles v1) v1")
       (auto simp: update_particles_def v1_def [symmetric] state_of_def post_redraw_def)
  then show ?thesis
    by (subst (asm) (1 2) v1) auto
qed

lemma update_particles_cases:
  obtains (raised) e c g r where
      "update_particles step v = Inl (e, v\<lparr>counter := c, geometry := g, redraws := r\<rparr>)"
  | (returned) c g r where
      "update_particles step v = Inr (v\<lparr>counter := c, geometry := g, redraws := r\<rparr>)"
proof -
  obtain c g r where
    st: "state_of (update_particles step v) = v\<lparr>counter := c, geometry := g, redraws := r\<rparr>"
    using update_particles_scene by blast
  show thesis
  proof (cases "update_particles step v")
    case (Inl a)
    then show ?thesis using st raised by (cases a) (simp add: state_of_def)
  next
    case (Inr b)
    then show ?thesis using st returned by (simp add: state_of_def)
  qed
qed

lemma create_movie_cases:
  obtains (raised) e where "create_movie v = Inl (e, v)"
  | (returned) fs where
      "create_movie v =
         Inr (v\<lparr>temp_video := (if store_run_files v then temp_video v else None), files := fs\<rparr>)"
proof (cases "sorted_by_number (glob_png (temp_video v))")
  case None
  then show ?thesis using raised [of AttributeError] by (simp add: create_movie_def)
next
  case (Some images)
  show ?thesis
  proof (cases images)
    case Nil
    then show ?thesis using Some raised [of IndexError] by (simp add: create_movie_def)
  next
    case (Cons first rest)
    let ?v1 = "write_file (''ZnVis-Video.'' @ video_format v)
                 (Video (frame_rate v) (List.map_filter (imread (temp_video v)) (first # rest))) v"
    have "create_movie v =
            Inr (v\<lparr>temp_video := (if store_run_files v then temp_video v else None),
                   files := files ?v1\<rparr>)"
      using Some Cons
      by (simp add: create_movie_def Let_def write_file_def del: List.map_filter_simps)
    then show ?thesis
      using returned [of "files ?v1"] by simp
  qed
qed

lemma run_session_invariant:
  assumes "\<And>a s. Q s \<Longrightarrow> Q (session_step a s)" and "Q s"
  shows "Q (run_session as s)"
  using assms(2) by (induction as arbitrary: s) (simp_all add: assms(1))

lemma run_session_append: "run_session (as @ bs) s = run_session bs (run_session as s)"
  by (induction as arbitrary: s) simp_all

lemma handshake_inv_start: "handshake_inv (record_trajectory v)"
  by (simp add: handshake_inv_def record_trajectory_def outstanding_def)

lemma handshake_inv_driver:
  assumes "handshake_inv s"
  shows "handshake_inv (driver_step s)"
proof (cases "pc s")
  case Settle
  then show ?thesis
    using assms
    by (cases rule: create_movie_cases [of "self s"])
       (simp_all add: handshake_inv_def driver_step_def outstanding_def)
next
  case Sleep
  then show ?thesis
    using assms
    by (simp add: handshake_inv_def driver_step_def outstanding_def split: option.splits)
qed (use assms in \<open>auto simp: handshake_inv_def driver_step_def outstanding_def\<close>)

lemma handshake_inv_gui:
  assumes "handshake_inv s"
  shows "handshake_inv (gui_step s)"
proof (cases "in_callback s")
  case (Some c)
  then show ?thesis
    using assms by (cases c) (auto simp: handshake_inv_def gui_step_def outstanding_def)
next
  case None
  show ?thesis
  proof (cases "posted s")
    case Nil
    then show ?thesis using assms None by (simp add: gui_step_def)
  next
    case (Cons c rest)
    show ?thesis
    proof (cases c)
      case Save_callable
      then show ?thesis
        using assms None Cons
        by (auto simp: handshake_inv_def gui_step_def outstanding_def export_current_image_def)
    next
      case Update_callable
      then show ?thesis
        using assms None Cons
        by (cases rule: update_particles_cases [of None "self s"])
           (auto simp: handshake_inv_def gui_step_def outstanding_def)
    qed
  qed
qed

lemma handshake_inv_run: "handshake_inv (run_session as (record_trajectory v))"
proof (rule run_session_invariant)
  show "handshake_inv (record_trajectory v)" by (rule handshake_inv_start)
next
  fix a s
  assume "handshake_inv s"
  then show "handshake_inv (session_step a s)"
    by (cases a) (simp_all add: session_step_def handshake_inv_driver handshake_inv_gui)
qed

text \<open>
  Claim C2. Both handshake flags are true when the loop of a recording run starts. In
  every state the run can reach, under every interleaving of the driver thread and the
  GUI thread, at most one capture callable and at most one advance callable is posted
  and not completed, and when the driver is about to post a capture (an advance) no
  capture (no advance) posted before is still waiting or running.
\<close>

theorem handshake_never_overlaps:
  "save_thread_finished (self (record_trajectory v))
   \<and> update_thread_finished (self (record_trajectory v))
   \<and> outstanding Save_callable (run_session as (record_trajectory v)) \<le> 1
   \<and> outstanding Update_callable (run_session as (record_trajectory v)) \<le> 1
   \<and> (pc (run_session as (record_trajectory v)) = Post_save
        \<longrightarrow> outstanding Save_callable (run_session as (record_trajectory v)) = 0)
   \<and> (pc (run_session as (record_trajectory v)) = Post_update
        \<longrightarrow> outstanding Update_callable (run_session as (record_trajectory v)) = 0)
   \<and> (0 < outstanding Save_callable (run_session as (record_trajectory v))
        \<longrightarrow> \<not> save_thread_finished (self (run_session as (record_trajectory v))))
   \<and> (0 < outstanding Update_callable (run_session as (record_trajectory v))
        \<longrightarrow> \<not> update_thread_finished (self (run_session as (record_trajectory v))))"
  using handshake_inv_run [of as v]
  by (simp add: handshake_inv_def record_trajectory_def)

theorem handshake_never_overlaps_witness:
  "pc (run_session (replicate 4 Driver) (record_trajectory demo)) = Post_save
   \<and> outstanding Save_callable (run_session (replicate 4 Driver) (record_trajectory demo)) = 0
   \<and> pc (run_session (replicate 8 Driver) (record_trajectory demo)) = Post_update
   \<and> outstanding Update_callable (run_session (replicate 8 Driver) (record_trajectory demo)) = 0
   \<and> outstanding Save_callable (run_session (replicate 8 Driver) (record_trajectory demo)) = 1
   \<and> \<not> save_thread_finished (self (run_session (replicate 8 Driver) (record_trajectory demo)))
   \<and> outstanding Update_callable (run_session (replicate 9 Driver) (record_trajectory demo)) = 1
   \<and> \<not> update_thread_finished (self (run_session (replicate 9 Driver) (record_trajectory demo)))"
proof -
  have a: "pc (run_session (replicate 4 Driver) (record_trajectory demo)) = Post_save"
    by code_simp
  have b: "pc (run_session (replicate 8 Driver) (record_trajectory demo)) = Post_update"
    by code_simp
  have c: "outstanding Save_callable (run_session (replicate 8 Driver) (record_trajectory demo)) = 1"
    by code_simp
  have d: "outstanding Update_callable (run_session (replicate 9 Driver) (record_trajectory demo)) = 1"
    by code_simp
  show ?thesis
    using a b c d handshake_never_overlaps [of demo "replicate 4 Driver"]
      handshake_never_overlaps [of demo "replicate 8 Driver"]
      handshake_never_overlaps [of demo "replicate 9 Driver"]
    by simp
qed

lemma update_particles_advance:
  obtains (raised) e g r where
      "update_particles None v =
         Inl (e, v\<lparr>counter := (if counter v = number_of_steps v - 1 then 0 else counter v + 1),
                    geometry := g, redraws := r\<rparr>)"
  | (returned) g r where
      "update_particles None v =
         Inr (v\<lparr>counter := (if counter v = number_of_steps v - 1 then 0 else counter v + 1),
                geometry := g, redraws := r\<rparr>)"
proof (cases rule: update_particles_cases [of None v])
  case (raised e c g r)
  then have "c = (if counter v = number_of_steps v - 1 then 0 else counter v + 1)"
    using update_particles_counter [of v] by (simp add: state_of_def)
  then show ?thesis using raised that(1) by simp
next
  case (returned c g r)
  then have "c = (if counter v = number_of_steps v - 1 then 0 else counter v + 1)"
    using update_particles_counter [of v] by (simp add: state_of_def)
  then show ?thesis using returned that(2) by simp
qed

lemma loop_inv_start:
  assumes "1 \<le> number_of_steps v" "0 \<le> counter v" "counter v < number_of_steps v"
    and "temp_video v = Some []"
  shows "loop_inv (number_of_steps v) (record_trajectory v)"
  using assms by (simp add: loop_inv_def record_trajectory_def frame_files_def)

lemma loop_inv_driver:
  assumes "loop_inv S s"
  shows "loop_inv S (driver_step s)"
proof (cases "pc s")
  case Settle
  then show ?thesis
    using assms
    by (cases rule: create_movie_cases [of "self s"])
       (auto simp: loop_inv_def driver_step_def frame_files_def split: option.splits)
next
  case Sleep
  then show ?thesis
    using assms
    by (simp add: loop_inv_def driver_step_def frame_files_def split: option.splits)
qed (use assms in \<open>auto simp: loop_inv_def driver_step_def frame_files_def\<close>)

lemma loop_inv_gui:
  assumes "loop_inv S s"
  shows "loop_inv S (gui_step s)"
proof (cases "in_callback s")
  case (Some c)
  then show ?thesis
    using assms by (cases c) (auto simp: loop_inv_def gui_step_def frame_files_def)
next
  case None
  show ?thesis
  proof (cases "posted s")
    case Nil
    then show ?thesis using assms None by (simp add: gui_step_def)
  next
    case (Cons c rest)
    show ?thesis
    proof (cases c)
      case Save_callable
      then show ?thesis
        using assms None Cons
        by (auto simp: loop_inv_def gui_step_def frame_files_def export_current_image_def
            split: option.splits)
    next
      case Update_callable
      then show ?thesis
        using assms None Cons
        by (cases rule: update_particles_advance [of "self s"])
           (auto simp: loop_inv_def gui_step_def frame_files_def)
    qed
  qed
qed

lemma loop_inv_run:
  assumes "loop_inv S s"
  shows "loop_inv S (run_session as s)"
proof (rule run_session_invariant)
  show "loop_inv S s" by (rule assms)
next
  fix a s
  assume "loop_inv S s"
  then show "loop_inv S (session_step a s)"
    by (cases a) (simp_all add: session_step_def loop_inv_driver loop_inv_gui)
qed


lemma draw_particles_present:
  assumes "\<forall>p \<in> set ps. mesh_dict p (counter v) \<noteq> None"
  shows "\<exists>g. draw_particles False ps v = Inr (v\<lparr>geometry := g\<rparr>)"
  using assms
proof (induction ps arbitrary: v)
  case Nil
  have "draw_particles False [] v = Inr (v\<lparr>geometry := geometry v\<rparr>)" by simp
  then show ?case by blast
next
  case (Cons item rest)
  then obtain m where m: "mesh_dict item (counter v) = Some m" by auto
  let ?v2 = "add_geometry (name item) m (remove_geometry (name item) v)"
  have "\<forall>p \<in> set rest. mesh_dict p (counter ?v2) \<noteq> None"
    using Cons.prems by (simp add: add_geometry_def remove_geometry_def)
  then obtain g where "draw_particles False rest ?v2 = Inr (?v2\<lparr>geometry := g\<rparr>)"
    using Cons.IH by blast
  then have "draw_particles False (item # rest) v = Inr (v\<lparr>geometry := g\<rparr>)"
    using m by (simp add: add_geometry_def remove_geometry_def)
  then show ?case by blast
qed

lemma update_particles_present:
  assumes "meshes_present v" "1 \<le> number_of_steps v" "0 \<le> counter v"
    and "counter v < number_of_steps v"
  shows "\<exists>g. update_particles None v =
           Inr (v\<lparr>counter := (counter v + 1) mod number_of_steps v, geometry := g,
                  redraws := Suc (redraws v)\<rparr>)"
proof -
  let ?c = "(counter v + 1) mod number_of_steps v"
  have adv: "(if counter v = number_of_steps v - 1 then v\<lparr>counter := 0\<rparr>
              else v\<lparr>counter := counter v + 1\<rparr>) = v\<lparr>counter := ?c\<rparr>"
    using assms(2-4) by auto
  have "0 \<le> ?c \<and> ?c \<le> number_of_steps v - 1"
    using assms(2) by (simp add: zle_diff1_eq)
  then have "\<forall>p \<in> set (particles (v\<lparr>counter := ?c\<rparr>)). mesh_dict p (counter (v\<lparr>counter := ?c\<rparr>)) \<noteq> None"
    using assms(1) by (simp add: meshes_present_def)
  then obtain g where
    "draw_particles False (particles (v\<lparr>counter := ?c\<rparr>)) (v\<lparr>counter := ?c\<rparr>)
       = Inr (v\<lparr>counter := ?c, geometry := g\<rparr>)"
    using draw_particles_present [of "particles (v\<lparr>counter := ?c\<rparr>)" "v\<lparr>counter := ?c\<rparr>"]
    by auto
  then have "update_particles None v =
               Inr (v\<lparr>counter := ?c, geometry := g, redraws := Suc (redraws v)\<rparr>)"
    unfolding update_particles_def option.case adv Let_def
    by (simp add: post_redraw_def)
  then show ?thesis by blast
qed

lemma driver_part:
  assumes "save_thread_finished v" "update_thread_finished v" "0 < frame_rate v"
  shows "run_session (replicate 9 Driver)
           \<lparr>self = v, pc = While_test, completed = k, finished = False, posted = [],
            in_callback = None, submitted = h\<rparr>
         = \<lparr>self = v\<lparr>save_thread_finished := False, update_thread_finished := False\<rparr>,
            pc = While_test, completed = k + 1, finished = (number_of_steps v \<le> k + 1),
            posted = [Save_callable, Update_callable],
            in_callback = None, submitted = h @ [Save_callable, Update_callable]\<rparr>"
  using assms
  by (simp add: eval_nat_numeral session_step_def driver_step_def sleep_tick_def)

lemma gui_part:
  assumes "meshes_present v" "1 \<le> number_of_steps v" "0 \<le> counter v"
    and "counter v < number_of_steps v" and "temp_video v = Some es"
  shows "\<exists>g. run_session (replicate 4 Gui)
           \<lparr>self = v, pc = p, completed = k, finished = f,
            posted = [Save_callable, Update_callable], in_callback = None, submitted = h\<rparr>
         = \<lparr>self = v\<lparr>counter := (counter v + 1) mod number_of_steps v, geometry := g,
                     redraws := Suc (redraws v),
                     temp_video := Some (filter (\<lambda>e. fst e \<noteq> frame_name (counter v)) es
                                          @ [(frame_name (counter v), geometry v)]),
                     save_thread_finished := True, update_thread_finished := True\<rparr>,
            pc = p, completed = k, finished = f, posted = [], in_callback = None,
            submitted = h\<rparr>"
proof -
  let ?w = "(export_current_image (frame_name (counter v)) v)\<lparr>save_thread_finished := True\<rparr>"
  have "meshes_present ?w" "1 \<le> number_of_steps ?w" "0 \<le> counter ?w"
    "counter ?w < number_of_steps ?w"
    using assms(1-4) by (simp_all add: meshes_present_def export_current_image_def)
  then obtain g where
    "update_particles None ?w =
       Inr (?w\<lparr>counter := (counter ?w + 1) mod number_of_steps ?w, geometry := g,
               redraws := Suc (redraws ?w)\<rparr>)"
    using update_particles_present [of ?w] by blast
  then show ?thesis
    using assms(5)
    by (intro exI [of _ g])
       (simp add: eval_nat_numeral session_step_def gui_step_def export_current_image_def)
qed


lemma concat_replicate_snoc: "concat (replicate (Suc n) xs) = concat (replicate n xs) @ xs"
  by (induction n) simp_all

lemma names_after_write:
  "set (map fst (filter (\<lambda>e. fst e \<noteq> b) es @ [(b, x)])) = insert b (set (map fst es))"
  by (induction es) auto

lemma lockstep_ticks:
  assumes "meshes_present v" "1 \<le> number_of_steps v" "0 \<le> counter v"
    and "counter v < number_of_steps v" and "temp_video v = Some []" and "0 < frame_rate v"
    and "int n \<le> number_of_steps v"
  shows "\<exists>w h es. run_session (concat (replicate n tick)) (record_trajectory v)
           = \<lparr>self = w, pc = While_test, completed = int n,
              finished = (number_of_steps v \<le> int n), posted = [], in_callback = None,
              submitted = h\<rparr>
         \<and> count_list h Save_callable = n
         \<and> save_thread_finished w \<and> update_thread_finished w
         \<and> particles w = particles v \<and> number_of_steps w = number_of_steps v
         \<and> frame_rate w = frame_rate v
         \<and> counter w = (counter v + int n) mod number_of_steps v
         \<and> temp_video w = Some es \<and> distinct (map fst es)
         \<and> set (map fst es) =
             (\<lambda>k. frame_name ((counter v + int k) mod number_of_steps v)) ` {..<n}"
  using assms(7)
proof (induction n)
  case 0
  show ?case
    using assms(3-5) by (simp add: record_trajectory_def)
next
  case (Suc n)
  let ?S = "number_of_steps v"
  obtain w h es where
    run: "run_session (concat (replicate n tick)) (record_trajectory v)
           = \<lparr>self = w, pc = While_test, completed = int n,
              finished = (number_of_steps v \<le> int n), posted = [], in_callback = None,
              submitted = h\<rparr>"
    and h: "count_list h Save_callable = n"
    and flags: "save_thread_finished w" "update_thread_finished w"
    and same: "particles w = particles v" "number_of_steps w = ?S" "frame_rate w = frame_rate v"
    and cw: "counter w = (counter v + int n) mod ?S"
    and es: "temp_video w = Some es" "distinct (map fst es)"
      "set (map fst es) = (\<lambda>k. frame_name ((counter v + int k) mod ?S)) ` {..<n}"
    using Suc by auto
  let ?w1 = "w\<lparr>save_thread_finished := False, update_thread_finished := False\<rparr>"
  have notyet: "(number_of_steps v \<le> int n) = False"
    using Suc.prems by simp
  have d: "run_session (replicate 9 Driver)
             \<lparr>self = w, pc = While_test, completed = int n, finished = False, posted = [],
              in_callback = None, submitted = h\<rparr>
           = \<lparr>self = ?w1, pc = While_test, completed = int n + 1,
              finished = (number_of_steps w \<le> int n + 1),
              posted = [Save_callable, Update_callable], in_callback = None,
              submitted = h @ [Save_callable, Update_callable]\<rparr>"
    using flags same assms(6) by (intro driver_part) simp_all
  have w1: "meshes_present ?w1" "1 \<le> number_of_steps ?w1" "0 \<le> counter ?w1"
    "counter ?w1 < number_of_steps ?w1" "temp_video ?w1 = Some es"
    using assms(1,2) same cw es(1) by (simp_all add: meshes_present_def)
  obtain g where
    g: "run_session (replicate 4 Gui)
          \<lparr>self = ?w1, pc = While_test, completed = int n + 1,
           finished = (number_of_steps w \<le> int n + 1),
           posted = [Save_callable, Update_callable], in_callback = None,
           submitted = h @ [Save_callable, Update_callable]\<rparr>
        = \<lparr>self = ?w1\<lparr>counter := (counter ?w1 + 1) mod number_of_steps ?w1, geometry := g,
                     redraws := Suc (redraws ?w1),
                     temp_video := Some (filter (\<lambda>e. fst e \<noteq> frame_name (counter ?w1)) es
                                          @ [(frame_name (counter ?w1), geometry ?w1)]),
                     save_thread_finished := True, update_thread_finished := True\<rparr>,
           pc = While_test, completed = int n + 1,
           finished = (number_of_steps w \<le> int n + 1), posted = [], in_callback = None,
           submitted = h @ [Save_callable, Update_callable]\<rparr>"
    using gui_part [OF w1] by blast
  let ?w2 = "?w1\<lparr>counter := (counter ?w1 + 1) mod number_of_steps ?w1, geometry := g,
                     redraws := Suc (redraws ?w1),
                     temp_video := Some (filter (\<lambda>e. fst e \<noteq> frame_name (counter ?w1)) es
                                          @ [(frame_name (counter ?w1), geometry ?w1)]),
                     save_thread_finished := True, update_thread_finished := True\<rparr>"
  have split: "concat (replicate (Suc n) tick)
                 = concat (replicate n tick) @ replicate 9 Driver @ replicate 4 Gui"
    by (simp add: concat_replicate_snoc tick_def del: replicate.simps)
  have total: "run_session (concat (replicate (Suc n) tick)) (record_trajectory v)
        = \<lparr>self = ?w2, pc = While_test, completed = int (Suc n),
           finished = (number_of_steps v \<le> int (Suc n)), posted = [], in_callback = None,
           submitted = h @ [Save_callable, Update_callable]\<rparr>"
    unfolding split run_session_append run notyet d g using same(2) by (simp add: add.commute)
  have count: "count_list (h @ [Save_callable, Update_callable]) Save_callable = Suc n"
    using h by simp
  have counter: "counter ?w2 = (counter v + int (Suc n)) mod ?S"
    using cw same(2) by (simp add: mod_add_left_eq add.assoc add.commute [of 1])
  have names: "set (map fst (filter (\<lambda>e. fst e \<noteq> frame_name (counter w)) es
                 @ [(frame_name (counter w), geometry w)]))
               = (\<lambda>k. frame_name ((counter v + int k) mod ?S)) ` {..<Suc n}"
    unfolding names_after_write es(3) cw by (simp add: lessThan_Suc)
  have dist: "distinct (map fst (filter (\<lambda>e. fst e \<noteq> frame_name (counter w)) es
                 @ [(frame_name (counter w), geometry w)]))"
    using es(2) by (auto simp: distinct_map_filter)
  show ?case
    using total count counter names dist flags same
    by (intro exI [of _ ?w2] exI [of _ "h @ [Save_callable, Update_callable]"]
          exI [of _ "filter (\<lambda>e. fst e \<noteq> frame_name (counter w)) es
                 @ [(frame_name (counter w), geometry w)]"]) simp
qed

lemma shift_image:
  assumes "1 \<le> (S::int)" "0 \<le> c" "c < S"
  shows "(\<lambda>k. (c + int k) mod S) ` {..<nat S} = {0..<S}"
proof
  show "(\<lambda>k. (c + int k) mod S) ` {..<nat S} \<subseteq> {0..<S}"
    using assms(1) by auto
next
  show "{0..<S} \<subseteq> (\<lambda>k. (c + int k) mod S) ` {..<nat S}"
  proof
    fix y assume y: "y \<in> {0..<S}"
    let ?k = "nat ((y - c) mod S)"
    have "?k < nat S" using assms(1) by (simp add: nat_less_iff)
    moreover have "(c + int ?k) mod S = y"
    proof -
      have "(c + int ?k) mod S = (c + (y - c) mod S) mod S" using assms(1) by simp
      also have "\<dots> = (c + (y - c)) mod S" by (simp add: mod_add_right_eq)
      also have "\<dots> = y" using y by simp
      finally show ?thesis .
    qed
    ultimately show "y \<in> (\<lambda>k. (c + int k) mod S) ` {..<nat S}"
      by (intro image_eqI [where x = ?k]) simp_all
  qed
qed

lemma frame_name_inj_on: "inj_on frame_name {0..}"
proof (rule inj_onI)
  fix a b :: int
  assume "a \<in> {0..}" "b \<in> {0..}" "frame_name a = frame_name b"
  then have "nat a = nat b"
    using frame_name_inj [of "nat a" "nat b"] by simp
  then show "a = b" using \<open>a \<in> {0..}\<close> \<open>b \<in> {0..}\<close> by simp
qed

lemma lockstep_run:
  assumes "meshes_present v" "1 \<le> number_of_steps v" "0 \<le> counter v"
    and "counter v < number_of_steps v" and "temp_video v = Some []" and "0 < frame_rate v"
  shows "pc (run_session (lockstep (nat (number_of_steps v))) (record_trajectory v)) = Settle
       \<and> count_list (submitted (run_session (lockstep (nat (number_of_steps v)))
                                 (record_trajectory v))) Save_callable = nat (number_of_steps v)
       \<and> distinct (frame_files (run_session (lockstep (nat (number_of_steps v)))
                                 (record_trajectory v)))
       \<and> set (frame_files (run_session (lockstep (nat (number_of_steps v)))
                                 (record_trajectory v))) = frame_name ` {0..<number_of_steps v}
       \<and> length (frame_files (run_session (lockstep (nat (number_of_steps v)))
                                 (record_trajectory v))) = nat (number_of_steps v)"
proof -
  let ?S = "number_of_steps v"
  obtain w h es where
    run: "run_session (concat (replicate (nat ?S) tick)) (record_trajectory v)
           = \<lparr>self = w, pc = While_test, completed = int (nat ?S),
              finished = (?S \<le> int (nat ?S)), posted = [],
              in_callback = None, submitted = h\<rparr>"
    and h: "count_list h Save_callable = nat ?S"
    and same: "number_of_steps w = ?S"
    and es: "temp_video w = Some es" "distinct (map fst es)"
      "set (map fst es) = (\<lambda>k. frame_name ((counter v + int k) mod ?S)) ` {..<nat ?S}"
    using lockstep_ticks [OF assms, of "nat ?S"] assms(2) by auto
  have final: "run_session (lockstep (nat ?S)) (record_trajectory v)
           = \<lparr>self = w, pc = Settle, completed = int (nat ?S),
              finished = (?S \<le> int (nat ?S)), posted = [],
              in_callback = None, submitted = h\<rparr>"
    unfolding lockstep_def run_session_append run
    using same assms(2) by (simp add: session_step_def driver_step_def)
  have "(\<lambda>k. frame_name ((counter v + int k) mod ?S)) ` {..<nat ?S}
          = frame_name ` ((\<lambda>k. (counter v + int k) mod ?S) ` {..<nat ?S})"
    by (simp add: image_image)
  then have names: "set (map fst es) = frame_name ` {0..<?S}"
    using es(3) shift_image [OF assms(2-4)] by simp
  have "inj_on frame_name {0..<?S}"
    by (rule inj_on_subset [OF frame_name_inj_on]) auto
  then have "card (frame_name ` {0..<?S}) = nat ?S"
    by (simp add: card_image)
  then have len: "length es = nat ?S"
    using names es(2) distinct_card [of "map fst es"] by simp
  show ?thesis
    unfolding final using h es(1,2) names len by (simp add: frame_files_def)
qed


text \<open>
  Claim C1, as the pipeline behaves. Let a recording run start with a step count
  \<open>S \<ge> 1\<close>, a counter in \<open>[0, S)\<close> and the empty directory that \<^verbatim>\<open>_export_video\<close> has just
  created. Under every interleaving of the driver and the GUI thread, the loop is left
  only after exactly \<open>S\<close> captures have been submitted, and every file in the directory
  is \<^verbatim>\<open>frame_i.png\<close> for some \<open>0 \<le> i < S\<close>. When moreover the frame rate is positive, every
  particle has a mesh for every step, and the GUI thread completes the capture and the
  advance of each tick during the driver's sleep, the loop is left after \<open>S\<close> ticks and
  the directory then holds exactly the \<open>S\<close> distinct files \<^verbatim>\<open>frame_0.png\<close> to
  \<^verbatim>\<open>frame_(S-1).png\<close>.
\<close>

theorem recording_frames:
  assumes "1 \<le> number_of_steps v" "0 \<le> counter v" "counter v < number_of_steps v"
    and "temp_video v = Some []"
  shows "(pc (run_session as (record_trajectory v)) \<in> {Settle, Finished}
            \<longrightarrow> count_list (submitted (run_session as (record_trajectory v))) Save_callable
                  = nat (number_of_steps v))
       \<and> set (frame_files (run_session as (record_trajectory v)))
            \<subseteq> frame_name ` {0..<number_of_steps v}
       \<and> (meshes_present v \<and> 0 < frame_rate v \<longrightarrow>
            pc (run_session (lockstep (nat (number_of_steps v))) (record_trajectory v)) = Settle
          \<and> count_list (submitted (run_session (lockstep (nat (number_of_steps v)))
                 (record_trajectory v))) Save_callable = nat (number_of_steps v)
          \<and> distinct (frame_files (run_session (lockstep (nat (number_of_steps v)))
                 (record_trajectory v)))
          \<and> set (frame_files (run_session (lockstep (nat (number_of_steps v)))
                 (record_trajectory v))) = frame_name ` {0..<number_of_steps v}
          \<and> length (frame_files (run_session (lockstep (nat (number_of_steps v)))
                 (record_trajectory v))) = nat (number_of_steps v))"
proof -
  have "loop_inv (number_of_steps v) (run_session as (record_trajectory v))"
    using assms by (intro loop_inv_run loop_inv_start) simp_all
  then have any: "(pc (run_session as (record_trajectory v)) \<in> {Settle, Finished}
            \<longrightarrow> count_list (submitted (run_session as (record_trajectory v))) Save_callable
                  = nat (number_of_steps v))
       \<and> set (frame_files (run_session as (record_trajectory v)))
            \<subseteq> frame_name ` {0..<number_of_steps v}"
    by (auto simp: loop_inv_def)
  show ?thesis
    using any lockstep_run [OF _ assms] by blast
qed

theorem recording_frames_witness:
  "pc (run_session race (record_trajectory (demo\<lparr>temp_video := Some []\<rparr>))) = Settle
   \<and> count_list (submitted (run_session race (record_trajectory (demo\<lparr>temp_video := Some []\<rparr>))))
        Save_callable = 3
   \<and> set (frame_files (run_session race (record_trajectory (demo\<lparr>temp_video := Some []\<rparr>))))
        \<subseteq> frame_name ` {0..<3}
   \<and> pc (run_session (lockstep 3) (record_trajectory (demo\<lparr>temp_video := Some []\<rparr>))) = Settle
   \<and> set (frame_files (run_session (lockstep 3) (record_trajectory (demo\<lparr>temp_video := Some []\<rparr>))))
        = frame_name ` {0..<3}
   \<and> length (frame_files (run_session (lockstep 3)
        (record_trajectory (demo\<lparr>temp_video := Some []\<rparr>)))) = 3"
proof -
  let ?v = "demo\<lparr>temp_video := Some []\<rparr>"
  have hyps: "1 \<le> number_of_steps ?v" "0 \<le> counter ?v" "counter ?v < number_of_steps ?v"
    "temp_video ?v = Some []" "0 < frame_rate ?v" "nat (number_of_steps ?v) = 3"
    "number_of_steps ?v = 3"
    by (simp_all add: demo_def)
  have present: "meshes_present ?v"
    by code_simp
  have left: "pc (run_session race (record_trajectory ?v)) = Settle"
    by code_simp
  show ?thesis
    using recording_frames [OF hyps(1-4), of race] hyps(5-7) present left by simp
qed

theorem recording_race_skips_frame:
  "pc (run_session race (record_trajectory (demo\<lparr>temp_video := Some []\<rparr>))) = Settle
   \<and> count_list (submitted (run_session race (record_trajectory (demo\<lparr>temp_video := Some []\<rparr>))))
        Save_callable = 3
   \<and> frame_files (run_session race (record_trajectory (demo\<lparr>temp_video := Some []\<rparr>)))
        = [''frame_2.png'', ''frame_0.png'']"
  by code_simp

lemma retained_driver:
  assumes "store_run_files (self s) \<and> temp_video (self s) \<noteq> None"
  shows "store_run_files (self (driver_step s)) \<and> temp_video (self (driver_step s)) \<noteq> None"
proof (cases "pc s")
  case Settle
  then show ?thesis
    using assms
    by (cases rule: create_movie_cases [of "self s"]) (auto simp: driver_step_def)
next
  case Sleep
  then show ?thesis
    using assms by (simp add: driver_step_def split: option.splits)
qed (use assms in \<open>auto simp: driver_step_def\<close>)

lemma retained_gui:
  assumes "store_run_files (self s) \<and> temp_video (self s) \<noteq> None"
  shows "store_run_files (self (gui_step s)) \<and> temp_video (self (gui_step s)) \<noteq> None"
proof (cases "in_callback s")
  case (Some c)
  then show ?thesis
    using assms by (cases c) (auto simp: gui_step_def)
next
  case None
  show ?thesis
  proof (cases "posted s")
    case Nil
    then show ?thesis using assms None by (simp add: gui_step_def)
  next
    case (Cons c rest)
    show ?thesis
    proof (cases c)
      case Save_callable
      then show ?thesis
        using assms None Cons by (auto simp: gui_step_def export_current_image_def)
    next
      case Update_callable
      then show ?thesis
        using assms None Cons
        by (cases rule: update_particles_cases [of None "self s"]) (auto simp: gui_step_def)
    qed
  qed
qed

lemma retained_run:
  assumes "store_run_files (self s) \<and> temp_video (self s) \<noteq> None"
  shows "store_run_files (self (run_session as s)) \<and> temp_video (self (run_session as s)) \<noteq> None"
proof (rule run_session_invariant
    [where Q = "\<lambda>s::session. store_run_files (self s) \<and> temp_video (self s) \<noteq> None"])
  show "store_run_files (self s) \<and> temp_video (self s) \<noteq> None" by (rule assms)
next
  fix a and s :: session
  assume "store_run_files (self s) \<and> temp_video (self s) \<noteq> None"
  then show "store_run_files (self (session_step a s)) \<and> temp_video (self (session_step a s)) \<noteq> None"
    using retained_driver [of s] retained_gui [of s] by (cases a) (simp_all add: session_step_def)
qed

lemma export_scene_body_directory:
  "temp_video (state_of (export_scene_body v)) = temp_video v"
  by (auto simp: export_scene_body_def state_of_def write_file_def Let_def
      split: list.splits option.splits prod.splits)

lemma thread_step_directory: "temp_video (self (thread_step i p)) = temp_video (self p)"
  by (cases "threads p ! i") (simp_all add: thread_step_def)

lemma update_particles_directory:
  "temp_video (state_of (update_particles step v)) = temp_video v"
  by (cases rule: update_particles_cases [of step v]) (simp_all add: state_of_def)

lemma player_step_directory: "temp_video (self (player_step e p)) = temp_video (self p)"
proof (cases e)
  case Play
  then show ?thesis
    by (simp add: player_step_def continuous_trajectory_def pause_run_def)
next
  case Step
  then show ?thesis by (simp add: player_step_def update_particles_directory)
next
  case Export_scene_begin
  then show ?thesis
    using export_scene_body_directory [of "self p"]
    by (cases "export_scene_body (self p)") (auto simp: player_step_def state_of_def)
next
  case Export_scene_end
  then show ?thesis
    by (simp add: player_step_def continuous_trajectory_def pause_run_def split: option.splits)
next
  case Redraw
  then show ?thesis by (simp add: player_step_def update_particles_directory)
next
  case (Thread i)
  then show ?thesis by (simp add: player_step_def thread_step_directory)
qed

lemma run_player_directory: "temp_video (self (run_player es p)) = temp_video (self p)"
  by (induction es arbitrary: p) (simp_all add: player_step_directory)

lemma export_video_exists:
  assumes "temp_video v \<noteq> None"
  shows "export_video v = Inl (FileExistsError, v\<lparr>interrupt := 0\<rparr>)"
  using assms by (auto simp: export_video_def)

text \<open>
  Claim C10. When the directory \<^verbatim>\<open>temp_video\<close> exists, Export Video raises
  \<^verbatim>\<open>FileExistsError\<close> at \<^verbatim>\<open>os.mkdir\<close>, having only cleared the run flag, and starts no
  recording thread. The assembler keeps the directory when run files are stored, and
  playback, stepping and Export Scene never touch it. So once Export Video has
  succeeded on a visualizer that stores its run files, the directory exists at every
  later point of that recording run, during the recording and after the assembly, and
  Export Video triggered there raises again.
\<close>

theorem export_video_once:
  "(temp_video v \<noteq> None \<longrightarrow> export_video v = Inl (FileExistsError, v\<lparr>interrupt := 0\<rparr>))
   \<and> (store_run_files v \<and> create_movie v = Inr w \<longrightarrow> temp_video w = temp_video v)
   \<and> temp_video (self (run_player es p)) = temp_video (self p)
   \<and> (store_run_files v \<and> export_video v = Inr s \<longrightarrow>
        export_video (self (run_session sched s))
          = Inl (FileExistsError, (self (run_session sched s))\<lparr>interrupt := 0\<rparr>))"
proof -
  have a: "temp_video v \<noteq> None \<longrightarrow> export_video v = Inl (FileExistsError, v\<lparr>interrupt := 0\<rparr>)"
    by (simp add: export_video_exists)
  have b: "store_run_files v \<and> create_movie v = Inr w \<longrightarrow> temp_video w = temp_video v"
    by (cases rule: create_movie_cases [of v]) auto
  have c: "export_video (self (run_session sched s))
          = Inl (FileExistsError, (self (run_session sched s))\<lparr>interrupt := 0\<rparr>)"
    if "store_run_files v" "export_video v = Inr s"
  proof -
    have "store_run_files (self s) \<and> temp_video (self s) \<noteq> None"
      using that
      by (auto simp: export_video_def Let_def record_trajectory_def split: option.splits)
    then have "temp_video (self (run_session sched s)) \<noteq> None"
      using retained_run by blast
    then show ?thesis by (rule export_video_exists)
  qed
  from a b c run_player_directory [of es p] show ?thesis by blast
qed

theorem export_video_once_witness:
  "export_video (demo\<lparr>temp_video := Some []\<rparr>)
     = Inl (FileExistsError, demo\<lparr>temp_video := Some []\<rparr>)
   \<and> \<not> isl (create_movie (demo\<lparr>store_run_files := True,
                                  temp_video := Some [(''frame_0.png'', [])]\<rparr>))
   \<and> temp_video (projr (create_movie (demo\<lparr>store_run_files := True,
                                  temp_video := Some [(''frame_0.png'', [])]\<rparr>)))
       = Some [(''frame_0.png'', [])]
   \<and> export_video (demo\<lparr>store_run_files := True\<rparr>)
     = Inr (record_trajectory (demo\<lparr>store_run_files := True, temp_video := Some []\<rparr>))
   \<and> pc (run_session (lockstep 3 @ [Driver])
          (record_trajectory (demo\<lparr>store_run_files := True, temp_video := Some []\<rparr>))) = Finished
   \<and> isl (export_video (self (run_session (lockstep 3 @ [Driver])
          (record_trajectory (demo\<lparr>store_run_files := True, temp_video := Some []\<rparr>)))))"
proof -
  let ?v = "demo\<lparr>store_run_files := True\<rparr>"
  let ?s = "record_trajectory (demo\<lparr>store_run_files := True, temp_video := Some []\<rparr>)"
  let ?u = "demo\<lparr>store_run_files := True, temp_video := Some [(''frame_0.png'', [])]\<rparr>"
  have start: "export_video ?v = Inr ?s"
    by (simp add: export_video_def demo_def)
  have fin: "pc (run_session (lockstep 3 @ [Driver]) ?s) = Finished"
    by code_simp
  have keep: "store_run_files ?v" "store_run_files ?u" "temp_video ?u = Some [(''frame_0.png'', [])]"
    by (simp_all add: demo_def)
  have made: "\<not> isl (create_movie ?u)"
    by code_simp
  then have movie: "create_movie ?u = Inr (projr (create_movie ?u))"
    by simp
  show ?thesis
    using export_video_once [where v = "demo\<lparr>temp_video := Some []\<rparr>"]
      export_video_once [where v = ?v and s = ?s and sched = "lockstep 3 @ [Driver]"]
      export_video_once [where v = ?u and w = "projr (create_movie ?u)"]
      start fin keep made movie
    by (simp add: demo_def)
qed

section \<open>Properties of playback\<close>

































text \<open>
  Claim C8 (the code departs from it). Export Scene is triggered on the example with
  two particles while one run loop is playing. The one file \<^verbatim>\<open>My_mesh_0.ply\<close> with the
  sum of both meshes is written in either run below. In the run \<open>late_pause\<close> the
  playing loop reaches its check after the restart was requested and before the new
  loop's first statement: its closing \<^verbatim>\<open>self.interrupt = 0\<close> then stops the new loop as
  well, and the player that was running at the trigger ends stopped with no run loop.
  In the run \<open>short_export\<close> the file is written within one sleep of the playing loop:
  the loop never sees the pause and keeps running beside the new one.
\<close>

theorem export_scene_stops_playback:
  "interrupt (self playing_pair) = 1 \<and> active playing_pair = 1
   \<and> files (self (run_player late_pause playing_pair)) = [(''My_mesh_0.ply'', Ply [0, 10])]
   \<and> interrupt (self (run_player late_pause playing_pair)) = 0
   \<and> active (run_player late_pause playing_pair) = 0
   \<and> files (self (run_player short_export playing_pair)) = [(''My_mesh_0.ply'', Ply [0, 10])]
   \<and> interrupt (self (run_player short_export playing_pair)) = 1
   \<and> active (run_player short_export playing_pair) = 2"
  by code_simp

end
